theory Spec2Isabelle
  imports Complex_Main "HOL-Library.Sublist" "HOL-Library.Multiset" "HOL-Library.Product_Lexorder"
begin

section \<open>Strings\<close>

text \<open>
  A Python \<open>str\<close> is modelled as a \<open>string\<close> whose characters are the code points
  0..255 (Latin-1).  A code mapping \<open>Dict[int, str]\<close> is an association list in the
  dictionary's iteration order (\<open>mapping.items()\<close>); Python's unbounded \<open>int\<close> is \<open>int\<close>.
  Python's \<open>float\<close> is modelled by the exact rational number it approximates.
\<close>

text \<open>\<open>str.lower()\<close>: on Latin-1 the letters A..Z and the accented capitals
  U+00C0..U+00DE (without the multiplication sign U+00D7) move up by 32; every other
  character stays.\<close>

definition lower_char :: "char \<Rightarrow> char" where
  "lower_char c =
     (let n = (of_char c :: nat)
      in if (65 \<le> n \<and> n \<le> 90) \<or> (192 \<le> n \<and> n \<le> 222 \<and> n \<noteq> 215)
         then char_of (n + 32) else c)"

definition lower :: "string \<Rightarrow> string" where
  "lower s = map lower_char s"

text \<open>\<open>str.isdigit()\<close>: the string is not empty and every character is a digit.  On
  Latin-1 the digit characters are 0..9 and the superscripts U+00B2, U+00B3, U+00B9; only
  0..9 are decimal digits (\<open>str.isdecimal()\<close>).\<close>

definition isdecimal_char :: "char \<Rightarrow> bool" where
  "isdecimal_char c = (let n = (of_char c :: nat) in 48 \<le> n \<and> n \<le> 57)"

definition isdigit_char :: "char \<Rightarrow> bool" where
  "isdigit_char c =
     (let n = (of_char c :: nat) in (48 \<le> n \<and> n \<le> 57) \<or> n = 178 \<or> n = 179 \<or> n = 185)"

definition isdigit :: "string \<Rightarrow> bool" where
  "isdigit s = (s \<noteq> [] \<and> list_all isdigit_char s)"

datatype error = ValueError

text \<open>\<open>int(s)\<close> on a string that passed \<open>isdigit\<close> (no sign, blank or underscore
  can occur there): the base-10 value when every character is a decimal digit and there
  are at most \<open>int_max_str_digits\<close> of them, and a \<open>ValueError\<close> otherwise.  The
  interpreter's limit on the digits of a decimal string (leading zeros count) is 4300
  unless the process changes it, which this program does not.\<close>

definition digit_value :: "char \<Rightarrow> int" where
  "digit_value c = int (of_char c) - 48"

definition int_max_str_digits :: nat where
  "int_max_str_digits = 4300"

definition py_int :: "string \<Rightarrow> error + int" where
  "py_int s =
     (if s \<noteq> [] \<and> list_all isdecimal_char s \<and> length s \<le> int_max_str_digits
      then Inr (foldl (\<lambda>n c. 10 * n + digit_value c) 0 s)
      else Inl ValueError)"

text \<open>\<open>xs[:k]\<close>: a negative bound counts from the end.\<close>

definition slice_to :: "'a list \<Rightarrow> int \<Rightarrow> 'a list" where
  "slice_to xs k = (if k < 0 then take (nat (int (length xs) + k)) xs else take (nat k) xs)"

section \<open>The similarity scorer: \<open>difflib.SequenceMatcher(None, a, b).ratio()\<close>\<close>

text \<open>
  The scorer is the standard library's \<open>SequenceMatcher\<close> with \<open>isjunk = None\<close> and the
  default \<open>autojunk = True\<close>.  \<open>chain_b\<close> builds \<open>b2j\<close>: for every element of \<open>b\<close> the
  ascending list of its positions; when \<open>b\<close> has 200 elements or more, the elements that
  occur more than \<open>n // 100 + 1\<close> times are popular and are deleted from \<open>b2j\<close>.
\<close>

fun chain_b_index :: "nat \<Rightarrow> string \<Rightarrow> (char \<rightharpoonup> nat list) \<Rightarrow> (char \<rightharpoonup> nat list)" where
  "chain_b_index i [] b2j = b2j"
| "chain_b_index i (elt # rest) b2j =
     chain_b_index (Suc i) rest
       (b2j(elt \<mapsto> (case b2j elt of None \<Rightarrow> [] | Some indices \<Rightarrow> indices) @ [i]))"

definition chain_b :: "string \<Rightarrow> (char \<rightharpoonup> nat list)" where
  "chain_b b =
     (let b2j = chain_b_index 0 b Map.empty; n = length b
      in if 200 \<le> n
         then (let ntest = n div 100 + 1
               in (\<lambda>elt. case b2j elt of
                     None \<Rightarrow> None
                   | Some idxs \<Rightarrow> if ntest < length idxs then None else Some idxs))
         else b2j)"

text \<open>
  \<open>find_longest_match\<close>.  The state of the two nested loops is
  \<open>(j2len, besti, bestj, bestsize)\<close>.  The inner loop runs over the positions \<open>j\<close> of
  \<open>a[i]\<close> in \<open>b\<close>: it skips \<open>j < blo\<close>, stops at \<open>j \<ge> bhi\<close>, and otherwise sets
  \<open>k = newj2len[j] = j2len.get(j-1, 0) + 1\<close> (no key of \<open>j2len\<close> is negative, so the
  lookup at \<open>j = 0\<close> gives the default) and moves the best match to
  \<open>(i-k+1, j-k+1, k)\<close> when \<open>k > bestsize\<close>.
\<close>

type_synonym lm_state = "(nat \<rightharpoonup> nat) \<times> nat \<times> nat \<times> nat"

definition j2lenget :: "(nat \<rightharpoonup> nat) \<Rightarrow> nat \<Rightarrow> nat" where
  "j2lenget j2len j = (if j = 0 then 0 else case j2len (j - 1) of None \<Rightarrow> 0 | Some v \<Rightarrow> v)"

fun inner_loop :: "nat \<Rightarrow> nat \<Rightarrow> nat \<Rightarrow> (nat \<rightharpoonup> nat) \<Rightarrow> nat list \<Rightarrow> lm_state \<Rightarrow> lm_state" where
  "inner_loop i blo bhi j2len [] st = st"
| "inner_loop i blo bhi j2len (j # js) (newj2len, besti, bestj, bestsize) =
     (if j < blo then inner_loop i blo bhi j2len js (newj2len, besti, bestj, bestsize)
      else if bhi \<le> j then (newj2len, besti, bestj, bestsize)
      else (let k = j2lenget j2len j + 1
            in if bestsize < k
               then inner_loop i blo bhi j2len js (newj2len(j \<mapsto> k), Suc i - k, Suc j - k, k)
               else inner_loop i blo bhi j2len js (newj2len(j \<mapsto> k), besti, bestj, bestsize)))"

fun outer_loop :: "string \<Rightarrow> (char \<rightharpoonup> nat list) \<Rightarrow> nat \<Rightarrow> nat \<Rightarrow> nat list \<Rightarrow> lm_state \<Rightarrow> lm_state" where
  "outer_loop a b2j blo bhi [] st = st"
| "outer_loop a b2j blo bhi (i # rest) (j2len, besti, bestj, bestsize) =
     outer_loop a b2j blo bhi rest
       (inner_loop i blo bhi j2len (case b2j (a ! i) of None \<Rightarrow> [] | Some js \<Rightarrow> js)
          (Map.empty, besti, bestj, bestsize))"

text \<open>The two extension loops.  With \<open>isjunk = None\<close> the set \<open>bjunk\<close> is empty, so the
  test \<open>not isbjunk(...)\<close> always holds and the two later loops, guarded by
  \<open>isbjunk(...)\<close>, never run.\<close>

fun extend_left :: "string \<Rightarrow> string \<Rightarrow> nat \<Rightarrow> nat \<Rightarrow> nat \<times> nat \<times> nat \<Rightarrow> nat \<times> nat \<times> nat" where
  "extend_left a b alo blo (besti, bestj, bestsize) =
     (if alo < besti \<and> blo < bestj \<and> a ! (besti - 1) = b ! (bestj - 1)
      then extend_left a b alo blo (besti - 1, bestj - 1, bestsize + 1)
      else (besti, bestj, bestsize))"

function extend_right :: "string \<Rightarrow> string \<Rightarrow> nat \<Rightarrow> nat \<Rightarrow> nat \<times> nat \<times> nat \<Rightarrow> nat \<times> nat \<times> nat" where
  "extend_right a b ahi bhi (besti, bestj, bestsize) =
     (if besti + bestsize < ahi \<and> bestj + bestsize < bhi
         \<and> a ! (besti + bestsize) = b ! (bestj + bestsize)
      then extend_right a b ahi bhi (besti, bestj, bestsize + 1)
      else (besti, bestj, bestsize))"
  by pat_completeness auto
termination
  by (relation "measure (\<lambda>(a, b, ahi, bhi, besti, bestj, bestsize). ahi - (besti + bestsize))") auto

definition find_longest_match ::
  "string \<Rightarrow> string \<Rightarrow> (char \<rightharpoonup> nat list) \<Rightarrow> nat \<Rightarrow> nat \<Rightarrow> nat \<Rightarrow> nat \<Rightarrow> nat \<times> nat \<times> nat" where
  "find_longest_match a b b2j alo ahi blo bhi =
     (case outer_loop a b2j blo bhi [alo..<ahi] (Map.empty, alo, blo, 0) of
        (j2len, besti, bestj, bestsize) \<Rightarrow>
          extend_right a b ahi bhi (extend_left a b alo blo (besti, bestj, bestsize)))"

subsection \<open>The longest match lies inside the window\<close>

text \<open>\<open>best_ok\<close>: the best match so far is the initial \<open>(alo, blo, 0)\<close> or a non-empty
  block inside the window.  \<open>row_ok\<close>: every entry of a row of \<open>j2len\<close> is bounded by
  the distance to the window's lower ends.\<close>

definition best_ok :: "nat \<Rightarrow> nat \<Rightarrow> nat \<Rightarrow> nat \<Rightarrow> nat \<times> nat \<times> nat \<Rightarrow> bool" where
  "best_ok alo ahi blo bhi m =
     (case m of (i, j, k) \<Rightarrow>
        (k = 0 \<and> i = alo \<and> j = blo) \<or> (0 < k \<and> alo \<le> i \<and> i + k \<le> ahi \<and> blo \<le> j \<and> j + k \<le> bhi))"

definition row_ok :: "nat \<Rightarrow> nat \<Rightarrow> nat \<Rightarrow> (nat \<rightharpoonup> nat) \<Rightarrow> bool" where
  "row_ok alo blo n j2len = (\<forall>j v. j2len j = Some v \<longrightarrow> blo \<le> j \<and> v \<le> n - alo \<and> v \<le> Suc j - blo)"

lemma j2lenget_bound:
  assumes "row_ok alo blo i j2len" "alo \<le> i" "blo \<le> j"
  shows "j2lenget j2len j + 1 \<le> Suc i - alo \<and> j2lenget j2len j + 1 \<le> Suc j - blo"
proof (cases "j = 0 \<or> j2len (j - 1) = None")
  case True
  then have "j2lenget j2len j = 0" by (auto simp: j2lenget_def)
  then show ?thesis using assms by auto
next
  case False
  then obtain v where v: "j2len (j - 1) = Some v" and j: "0 < j" by auto
  from assms(1)[unfolded row_ok_def, rule_format, OF v]
  have "blo \<le> j - 1" "v \<le> i - alo" "v \<le> Suc (j - 1) - blo"
    by simp_all
  moreover have "j2lenget j2len j = v" using v j by (simp add: j2lenget_def)
  ultimately show ?thesis using assms j by auto
qed

lemma inner_loop_ok:
  assumes "row_ok alo blo i j2len" "alo \<le> i" "i < ahi"
  shows "row_ok alo blo (Suc i) newj2len \<Longrightarrow> best_ok alo ahi blo bhi (besti, bestj, bestsize) \<Longrightarrow>
         inner_loop i blo bhi j2len js (newj2len, besti, bestj, bestsize) = (r, m) \<Longrightarrow>
         row_ok alo blo (Suc i) r \<and> best_ok alo ahi blo bhi m"
proof (induction js arbitrary: newj2len besti bestj bestsize)
  case Nil
  then show ?case by simp
next
  case (Cons j js)
  show ?case
  proof (cases "j < blo")
    case True
    with Cons show ?thesis by simp
  next
    case lo: False
    show ?thesis
    proof (cases "bhi \<le> j")
      case True
      with lo Cons.prems show ?thesis by simp
    next
      case hi: False
      let ?k = "j2lenget j2len j + 1"
      have kb: "?k \<le> Suc i - alo" "?k \<le> Suc j - blo"
        using j2lenget_bound[OF assms(1,2), of j] lo by auto
      have row': "row_ok alo blo (Suc i) (newj2len(j \<mapsto> ?k))"
        using Cons.prems(1) kb lo by (auto simp: row_ok_def)
      show ?thesis
      proof (cases "bestsize < ?k")
        case True
        have b': "best_ok alo ahi blo bhi (Suc i - ?k, Suc j - ?k, ?k)"
          using kb assms hi lo by (auto simp: best_ok_def)
        from Cons.prems(3) lo hi True
        have "inner_loop i blo bhi j2len js (newj2len(j \<mapsto> ?k), Suc i - ?k, Suc j - ?k, ?k) = (r, m)"
          by (simp add: Let_def)
        from Cons.IH[OF row' b' this] show ?thesis .
      next
        case False
        from Cons.prems(3) lo hi False
        have "inner_loop i blo bhi j2len js (newj2len(j \<mapsto> ?k), besti, bestj, bestsize) = (r, m)"
          by (simp add: Let_def)
        from Cons.IH[OF row' Cons.prems(2) this] show ?thesis .
      qed
    qed
  qed
qed

lemma outer_loop_ok:
  "row_ok alo blo i0 j2len \<Longrightarrow> alo \<le> i0 \<Longrightarrow> best_ok alo ahi blo bhi (besti, bestj, bestsize) \<Longrightarrow>
   outer_loop a b2j blo bhi [i0..<ahi] (j2len, besti, bestj, bestsize) = (r, m) \<Longrightarrow>
   best_ok alo ahi blo bhi m"
proof (induction "ahi - i0" arbitrary: i0 j2len besti bestj bestsize)
  case 0
  then show ?case by simp
next
  case (Suc n)
  then have lt: "i0 < ahi" by simp
  then have upt: "[i0..<ahi] = i0 # [Suc i0..<ahi]" by (simp add: upt_conv_Cons)
  obtain r' bi bj bs where inner:
    "inner_loop i0 blo bhi j2len (case b2j (a ! i0) of None \<Rightarrow> [] | Some js \<Rightarrow> js)
       (Map.empty, besti, bestj, bestsize) = (r', bi, bj, bs)"
    by (metis prod_cases4)
  have e: "row_ok alo blo (Suc i0) Map.empty" by (simp add: row_ok_def)
  from inner_loop_ok[OF Suc.prems(1,2) lt e Suc.prems(3) inner]
  have ok: "row_ok alo blo (Suc i0) r'" "best_ok alo ahi blo bhi (bi, bj, bs)" by auto
  have "outer_loop a b2j blo bhi [Suc i0..<ahi] (r', bi, bj, bs) = (r, m)"
    using Suc.prems(4) upt inner by simp
  moreover have "n = ahi - Suc i0" using Suc.hyps(2) by simp
  ultimately show ?case using Suc.hyps(1)[of "Suc i0" r' bi bj bs] ok Suc.prems(2) by simp
qed

lemma extend_left_ok:
  "extend_left a b alo blo m = (i', j', k') \<Longrightarrow> alo \<le> fst m \<Longrightarrow> blo \<le> fst (snd m) \<Longrightarrow>
   alo \<le> i' \<and> blo \<le> j' \<and> i' + k' = fst m + snd (snd m) \<and> j' + k' = fst (snd m) + snd (snd m)
     \<and> snd (snd m) \<le> k'"
proof (induction a b alo blo m rule: extend_left.induct)
  case (1 a b alo blo besti bestj bestsize)
  show ?case
  proof (cases "alo < besti \<and> blo < bestj \<and> a ! (besti - 1) = b ! (bestj - 1)")
    case True
    then have "extend_left a b alo blo (besti - 1, bestj - 1, bestsize + 1) = (i', j', k')"
      using "1.prems"(1) by simp
    moreover have "alo \<le> fst (besti - 1, bestj - 1, bestsize + 1)"
      "blo \<le> fst (snd (besti - 1, bestj - 1, bestsize + 1))"
      using True by auto
    ultimately have "alo \<le> i' \<and> blo \<le> j' \<and> i' + k' = (besti - 1) + (bestsize + 1)
        \<and> j' + k' = (bestj - 1) + (bestsize + 1) \<and> bestsize + 1 \<le> k'"
      using "1.IH"[OF True] by simp
    with True show ?thesis by auto
  next
    case False
    with "1.prems" show ?thesis by auto
  qed
qed

lemma extend_right_ok:
  "extend_right a b ahi bhi m = (i', j', k') \<Longrightarrow>
   i' = fst m \<and> j' = fst (snd m) \<and> snd (snd m) \<le> k'
     \<and> (k' = snd (snd m) \<or> (fst m + k' \<le> ahi \<and> fst (snd m) + k' \<le> bhi))"
proof (induction a b ahi bhi m rule: extend_right.induct)
  case (1 a b ahi bhi besti bestj bestsize)
  show ?case
  proof (cases "besti + bestsize < ahi \<and> bestj + bestsize < bhi
         \<and> a ! (besti + bestsize) = b ! (bestj + bestsize)")
    case True
    then have e: "extend_right a b ahi bhi (besti, bestj, bestsize + 1) = (i', j', k')"
      using "1.prems"(1) by simp
    from "1.IH"[OF True e] True show ?thesis by auto
  next
    case False
    with "1.prems" show ?thesis by auto
  qed
qed

lemma find_longest_match_bounds:
  assumes "find_longest_match a b b2j alo ahi blo bhi = (i, j, k)" "0 < k"
  shows "alo \<le> i \<and> i + k \<le> ahi \<and> blo \<le> j \<and> j + k \<le> bhi"
proof -
  obtain r bi bj bs where o: "outer_loop a b2j blo bhi [alo..<ahi] (Map.empty, alo, blo, 0) = (r, bi, bj, bs)"
    by (metis prod_cases4)
  have "best_ok alo ahi blo bhi (bi, bj, bs)"
    by (rule outer_loop_ok[OF _ _ _ o]) (simp_all add: row_ok_def best_ok_def)
  then have b: "alo \<le> bi" "blo \<le> bj" "bs = 0 \<and> bi = alo \<and> bj = blo \<or> (bi + bs \<le> ahi \<and> bj + bs \<le> bhi)"
    by (auto simp: best_ok_def)
  obtain i1 j1 k1 where l: "extend_left a b alo blo (bi, bj, bs) = (i1, j1, k1)"
    by (metis prod_cases3)
  from extend_left_ok[OF l] b(1,2)
  have l': "alo \<le> i1" "blo \<le> j1" "i1 + k1 = bi + bs" "j1 + k1 = bj + bs" "bs \<le> k1"
    by auto
  have r: "extend_right a b ahi bhi (i1, j1, k1) = (i, j, k)"
    using assms(1) o l by (simp add: find_longest_match_def)
  from extend_right_ok[OF r] have r': "i = i1" "j = j1" "k = k1 \<or> (i1 + k \<le> ahi \<and> j1 + k \<le> bhi)" by auto
  show ?thesis
  proof (cases "k = k1")
    case True
    from b(3) show ?thesis
    proof
      assume "bs = 0 \<and> bi = alo \<and> bj = blo"
      with l' have "k1 = 0" by auto
      with True assms(2) show ?thesis by simp
    next
      assume "bi + bs \<le> ahi \<and> bj + bs \<le> bhi"
      with True l' r' show ?thesis by auto
    qed
  next
    case False
    with r' l' show ?thesis by auto
  qed
qed


subsection \<open>Matching blocks and the ratio\<close>

text \<open>
  \<open>get_matching_blocks\<close>: the work list \<open>queue\<close> is a Python list used as a stack
  (\<open>queue.pop()\<close> takes the element appended last), so the head of the model's list is
  the element appended last.  A window whose longest match is empty adds nothing; otherwise
  the block is recorded and the windows left and right of it are pushed when both of
  their sides are non-empty.
\<close>

function matching_loop ::
  "string \<Rightarrow> string \<Rightarrow> (char \<rightharpoonup> nat list) \<Rightarrow> (nat \<times> nat \<times> nat \<times> nat) list
     \<Rightarrow> (nat \<times> nat \<times> nat) list \<Rightarrow> (nat \<times> nat \<times> nat) list" where
  "matching_loop a b b2j [] matching_blocks = matching_blocks"
| "matching_loop a b b2j ((alo, ahi, blo, bhi) # queue) matching_blocks =
     (case find_longest_match a b b2j alo ahi blo bhi of
        (i, j, k) \<Rightarrow>
          if k \<noteq> 0
          then matching_loop a b b2j
                 ((if i + k < ahi \<and> j + k < bhi then [(i + k, ahi, j + k, bhi)] else [])
                  @ (if alo < i \<and> blo < j then [(alo, i, blo, j)] else []) @ queue)
                 (matching_blocks @ [(i, j, k)])
          else matching_loop a b b2j queue matching_blocks)"
  by pat_completeness auto
termination
proof (relation "measure (\<lambda>(a, b, b2j, queue, mbs).
          sum_list (map (\<lambda>(alo, ahi, blo, bhi). 2 * (ahi - alo) + 1) queue))", goal_cases)
  case 1
  show ?case by simp
next
  case 2
  then show ?case by (auto dest!: find_longest_match_bounds[OF sym])
next
  case 3
  then show ?case by simp
qed

text \<open>After sorting, adjacent blocks are merged and the sentinel \<open>(la, lb, 0)\<close> is
  appended.\<close>

fun collapse ::
  "(nat \<times> nat \<times> nat) list \<Rightarrow> nat \<times> nat \<times> nat \<Rightarrow> (nat \<times> nat \<times> nat) list \<Rightarrow> (nat \<times> nat \<times> nat) list" where
  "collapse [] (i1, j1, k1) non_adjacent =
     (if k1 \<noteq> 0 then non_adjacent @ [(i1, j1, k1)] else non_adjacent)"
| "collapse ((i2, j2, k2) # rest) (i1, j1, k1) non_adjacent =
     (if i1 + k1 = i2 \<and> j1 + k1 = j2
      then collapse rest (i1, j1, k1 + k2) non_adjacent
      else collapse rest (i2, j2, k2)
             (if k1 \<noteq> 0 then non_adjacent @ [(i1, j1, k1)] else non_adjacent))"

definition get_matching_blocks :: "string \<Rightarrow> string \<Rightarrow> (nat \<times> nat \<times> nat) list" where
  "get_matching_blocks a b =
     (let la = length a; lb = length b;
          matching_blocks = sort (matching_loop a b (chain_b b) [(0, la, 0, lb)] [])
      in collapse matching_blocks (0, 0, 0) [] @ [(la, lb, 0)])"

definition calculate_ratio :: "nat \<Rightarrow> nat \<Rightarrow> rat" where
  "calculate_ratio matches len = (if len \<noteq> 0 then 2 * of_nat matches / of_nat len else 1)"

definition ratio :: "string \<Rightarrow> string \<Rightarrow> rat" where
  "ratio a b =
     calculate_ratio (sum_list (map (\<lambda>(i, j, k). k) (get_matching_blocks a b)))
       (length a + length b)"

section \<open>The fuzzy matcher: \<open>FuzzySearch.search\<close>\<close>

text \<open>
  The loop over \<open>mapping.items()\<close> appends to \<open>matches\<close>: the entry with its computed
  similarity when that reaches the threshold, else the entry with \<open>partial_match_score\<close>
  when the lower-cased search term occurs in the lower-cased name (\<open>in\<close> on strings is the
  contiguous-substring test, \<open>sublist\<close>), else nothing.  \<open>str(name)\<close> is the name itself.
\<close>

type_synonym candidate = "int \<times> string \<times> rat"

fun search_loop ::
  "string \<Rightarrow> (int \<times> string) list \<Rightarrow> rat \<Rightarrow> rat \<Rightarrow> candidate list \<Rightarrow> candidate list" where
  "search_loop search_term [] threshold partial_match_score matches = matches"
| "search_loop search_term ((code, name) # items) threshold partial_match_score matches =
     (let name_lower = lower name;
          similarity = ratio search_term name_lower
      in if threshold \<le> similarity
         then search_loop search_term items threshold partial_match_score
                (matches @ [(code, name, similarity)])
         else if sublist search_term name_lower
         then search_loop search_term items threshold partial_match_score
                (matches @ [(code, name, partial_match_score)])
         else search_loop search_term items threshold partial_match_score matches)"

text \<open>\<open>sorted(matches, key=lambda x: x[2], reverse=True)\<close>: a stable sort by descending
  similarity (equal similarities keep the order of \<open>matches\<close>).\<close>

definition sorted_reverse :: "candidate list \<Rightarrow> candidate list" where
  "sorted_reverse matches = sort_key (\<lambda>x. - snd (snd x)) matches"

definition search :: "string \<Rightarrow> (int \<times> string) list \<Rightarrow> rat \<Rightarrow> rat \<Rightarrow> int \<Rightarrow> candidate list" where
  "search search_term mapping threshold partial_match_score max_results =
     slice_to
       (sorted_reverse (search_loop (lower search_term) mapping threshold partial_match_score []))
       max_results"

section \<open>The resolver: \<open>FuzzySearch.find_best_match\<close> and \<open>TradeDataExtractor._get_code\<close>\<close>

text \<open>The exact scan returns at the first entry whose lower-cased name is the lower-cased
  search term.\<close>

fun exact_loop :: "string \<Rightarrow> (int \<times> string) list \<Rightarrow> (int \<times> string) option" where
  "exact_loop search_lower [] = None"
| "exact_loop search_lower ((code, name) # items) =
     (if lower name = search_lower then Some (code, name) else exact_loop search_lower items)"

definition find_best_match ::
  "string \<Rightarrow> (int \<times> string) list \<Rightarrow> string \<Rightarrow> bool
     \<Rightarrow> int option \<times> string option \<times> candidate list" where
  "find_best_match search_term mapping item_type exact_search =
     (let search_lower = lower search_term
      in case (if exact_search then exact_loop search_lower mapping else None) of
           Some (code, name) \<Rightarrow> (Some code, Some name, [])
         | None \<Rightarrow>
             (None, None,
              search search_lower mapping (if item_type = ''country'' then 6 / 10 else 5 / 10)
                (9 / 10) 5))"

text \<open>\<open>_get_code\<close> returns \<open>Optional[int]\<close>; the \<open>ValueError\<close> of \<open>int(search_term)\<close> is
  the only exception it can raise.  Its \<open>print\<close> calls do not change the result and are
  left out.\<close>

definition get_code :: "string \<Rightarrow> (int \<times> string) list \<Rightarrow> string \<Rightarrow> error + int option" where
  "get_code search_term mapping item_type =
     (if isdigit search_term
      then (case py_int search_term of Inl e \<Rightarrow> Inl e | Inr n \<Rightarrow> Inr (Some n))
      else (case find_best_match search_term mapping item_type True of
              (Some code, name, matches) \<Rightarrow> Inr (Some code)
            | (None, name, matches) \<Rightarrow>
                (case matches of
                   [] \<Rightarrow> Inr None
                 | (match_code, match_name, similarity) # rest \<Rightarrow> Inr (Some match_code))))"

section \<open>Auxiliary facts\<close>

lemma foldl_digits_snoc:
  "foldl (\<lambda>n c. 10 * n + digit_value c) 0 (xs @ [x]) =
   10 * foldl (\<lambda>n c. 10 * n + digit_value c) 0 xs + digit_value x"
  by simp



lemma search_loop_acc:
  "search_loop st m thr p acc =
   acc @ concat (map (\<lambda>(code, name).
            if thr \<le> ratio st (lower name) then [(code, name, ratio st (lower name))]
            else if sublist st (lower name) then [(code, name, p)] else []) m)"
  by (induction m arbitrary: acc) (auto simp: Let_def)

lemma search_loop_keys:
  "(c, n, s) \<in> set (search_loop st m thr p []) \<Longrightarrow> (c, n) \<in> set m"
  by (auto simp: search_loop_acc split: if_splits)

lemma set_slice_to: "set (slice_to xs k) \<subseteq> set xs"
  by (auto simp: slice_to_def dest: in_set_takeD)

lemma exact_loop_None: "exact_loop sl m = None \<longleftrightarrow> (\<forall>e\<in>set m. lower (snd e) \<noteq> sl)"
proof (induction m)
  case Nil
  show ?case by simp
next
  case (Cons e m)
  obtain c n where e: "e = (c, n)" by (cases e)
  show ?case using Cons by (simp add: e)
qed

lemma exact_loop_find: "exact_loop sl m = find (\<lambda>e. lower (snd e) = sl) m"
proof (induction m)
  case Nil
  show ?case by simp
next
  case (Cons e m)
  obtain c n where e: "e = (c, n)" by (cases e)
  show ?case using Cons by (simp add: e)
qed

lemma exact_loop_Some: "exact_loop sl m = Some (c, n) \<Longrightarrow> (c, n) \<in> set m \<and> lower n = sl"
proof (induction m)
  case Nil
  then show ?case by simp
next
  case (Cons e m)
  obtain c' n' where e: "e = (c', n')" by (cases e)
  show ?case
  proof (cases "lower n' = sl")
    case True
    with Cons.prems e show ?thesis by simp
  next
    case False
    with Cons e show ?thesis by simp
  qed
qed

lemma search_keys:
  assumes "(c, n, s) \<in> set (search q m thr p k)"
  shows "(c, n) \<in> set m"
proof -
  have "set (search q m thr p k)
        \<subseteq> set (sorted_reverse (search_loop (lower q) m thr p []))"
    unfolding search_def by (rule set_slice_to)
  with assms have "(c, n, s) \<in> set (sorted_reverse (search_loop (lower q) m thr p []))"
    by (rule rev_subsetD)
  then have "(c, n, s) \<in> set (search_loop (lower q) m thr p [])"
    by (simp add: sorted_reverse_def)
  then show ?thesis by (rule search_loop_keys)
qed

lemma search_loop_mem:
  "(c, n, s) \<in> set (search_loop st m thr p []) \<longleftrightarrow>
     (c, n) \<in> set m \<and>
     (thr \<le> ratio st (lower n) \<and> s = ratio st (lower n)
      \<or> ratio st (lower n) < thr \<and> sublist st (lower n) \<and> s = p)"
proof (induction m)
  case Nil
  show ?case by simp
next
  case (Cons e m)
  obtain c' n' where e: "e = (c', n')" by (cases e)
  have "search_loop st (e # m) thr p [] =
        search_loop st [e] thr p [] @ search_loop st m thr p []"
    by (simp add: search_loop_acc)
  then show ?case using Cons by (auto simp: e Let_def)
qed

lemma sorted_reverse_props:
  "mset (sorted_reverse E) = mset E"
  "sorted (map (\<lambda>x. - snd (snd x)) (sorted_reverse E))"
  "filter (\<lambda>x. snd (snd x) = s) (sorted_reverse E) = filter (\<lambda>x. snd (snd x) = s) E"
proof -
  show "mset (sorted_reverse E) = mset E" by (simp add: sorted_reverse_def)
  show "sorted (map (\<lambda>x. - snd (snd x)) (sorted_reverse E))"
    by (simp add: sorted_reverse_def)
  have "filter (\<lambda>x. - snd (snd x) = - s) (sort_key (\<lambda>x. - snd (snd x)) E)
        = filter (\<lambda>x. - snd (snd x) = - s) E"
    by (rule sort_key_stable)
  then show "filter (\<lambda>x. snd (snd x) = s) (sorted_reverse E) = filter (\<lambda>x. snd (snd x) = s) E"
    by (simp add: sorted_reverse_def)
qed

lemma sorted_take_drop:
  assumes "sorted (map f xs)" "x \<in> set (take k xs)" "y \<in> set (drop k xs)"
  shows "f x \<le> f y"
proof -
  have "sorted (map f (take k xs) @ map f (drop k xs))"
    using assms(1) by (simp add: map_append[symmetric] del: map_append)
  then show ?thesis using assms(2,3) by (auto simp: sorted_append)
qed

subsection \<open>The scorer on an empty string\<close>

lemma find_longest_match_empty_a:
  "find_longest_match [] b b2j 0 0 0 bhi = (0, 0, 0)"
  by (simp add: find_longest_match_def)

lemma outer_loop_no_index:
  "outer_loop a Map.empty blo bhi xs (j2len, besti, bestj, bestsize) = (r, m) \<Longrightarrow> m = (besti, bestj, bestsize)"
  by (induction xs arbitrary: j2len r) auto

lemma find_longest_match_empty_b:
  "find_longest_match a [] Map.empty 0 ahi 0 0 = (0, 0, 0)"
proof -
  obtain r m where o: "outer_loop a Map.empty 0 0 [0..<ahi] (Map.empty, 0, 0, 0) = (r, m)"
    by (cases "outer_loop a Map.empty 0 0 [0..<ahi] (Map.empty, 0, 0, 0)")
  from outer_loop_no_index[OF o] have "m = (0, 0, 0)" .
  with o show ?thesis by (simp add: find_longest_match_def)
qed

lemma chain_b_Nil: "chain_b [] = Map.empty"
  by (simp add: chain_b_def)

lemma ratio_empty_left: "b \<noteq> [] \<Longrightarrow> ratio [] b = 0"
  by (simp add: ratio_def get_matching_blocks_def find_longest_match_empty_a calculate_ratio_def)

lemma ratio_empty_right: "a \<noteq> [] \<Longrightarrow> ratio a [] = 0"
  by (simp add: ratio_def get_matching_blocks_def chain_b_Nil find_longest_match_empty_b calculate_ratio_def)

lemma ratio_empty_empty: "ratio [] [] = 1"
  by (simp add: ratio_def get_matching_blocks_def find_longest_match_empty_a calculate_ratio_def)

lemma lower_Nil: "lower [] = []"
  by (simp add: lower_def)

lemma lower_eq_Nil: "lower s = [] \<longleftrightarrow> s = []"
  by (simp add: lower_def)

lemma sort_key_all_equal:
  "(\<forall>x\<in>set xs. f x = c) \<Longrightarrow> sort_key f xs = xs"
proof (induction xs)
  case Nil
  show ?case by simp
next
  case (Cons x xs)
  then have "sort_key f xs = xs" by simp
  moreover have "insort_key f x xs = x # xs"
    using Cons.prems by (cases xs) auto
  ultimately show ?case by simp
qed

lemma search_loop_empty_query:
  assumes "0 < thr" "\<forall>e\<in>set m. snd e \<noteq> []"
  shows "search_loop [] m thr p acc = acc @ map (\<lambda>e. (fst e, snd e, p)) m"
  using assms(2)
proof (induction m arbitrary: acc)
  case Nil
  show ?case by simp
next
  case (Cons e m)
  obtain c n where e: "e = (c, n)" by (cases e)
  from Cons.prems e have n: "lower n \<noteq> []" by (simp add: lower_eq_Nil)
  then have r: "ratio [] (lower n) = 0" by (rule ratio_empty_left)
  have "search_loop [] (e # m) thr p acc = search_loop [] m thr p (acc @ [(c, n, p)])"
    using assms(1) by (simp add: e r Let_def)
  also have "\<dots> = (acc @ [(c, n, p)]) @ map (\<lambda>e. (fst e, snd e, p)) m"
    using Cons by simp
  finally show ?case by (simp add: e)
qed

subsection \<open>The scorer's range\<close>

text \<open>The matched characters of the recorded blocks, and the sizes of the windows still
  on the work list: every block found in a window takes its size from both sides of that
  window, so twice the matched characters never exceed the two lengths together.\<close>

definition block_sum :: "(nat \<times> nat \<times> nat) list \<Rightarrow> nat" where
  "block_sum mbs = sum_list (map (\<lambda>(i, j, k). k) mbs)"

definition window_sum :: "(nat \<times> nat \<times> nat \<times> nat) list \<Rightarrow> nat" where
  "window_sum queue = sum_list (map (\<lambda>(alo, ahi, blo, bhi). (ahi - alo) + (bhi - blo)) queue)"

lemma block_sum_append: "block_sum (xs @ ys) = block_sum xs + block_sum ys"
  by (simp add: block_sum_def)

lemma window_sum_append: "window_sum (xs @ ys) = window_sum xs + window_sum ys"
  by (simp add: window_sum_def)


lemma matching_loop_sum:
  "2 * block_sum (matching_loop a b b2j queue mbs) \<le> 2 * block_sum mbs + window_sum queue"
proof (induction a b b2j queue mbs rule: matching_loop.induct)
  case (1 a b b2j mbs)
  show ?case by simp
next
  case (2 a b b2j alo ahi blo bhi queue mbs)
  obtain i j k where f: "find_longest_match a b b2j alo ahi blo bhi = (i, j, k)"
    by (metis prod_cases3)
  show ?case
  proof (cases "k = 0")
    case True
    have "2 * block_sum (matching_loop a b b2j queue mbs) \<le> 2 * block_sum mbs + window_sum queue"
      using "2.IH"(2)[of i "(j, k)" j k] f True by simp
    then show ?thesis using f True by (simp add: window_sum_def)
  next
    case False
    then have k: "0 < k" by simp
    from find_longest_match_bounds[OF f k]
    have b: "alo \<le> i" "i + k \<le> ahi" "blo \<le> j" "j + k \<le> bhi" by auto
    let ?q = "(if i + k < ahi \<and> j + k < bhi then [(i + k, ahi, j + k, bhi)] else [])
                  @ (if alo < i \<and> blo < j then [(alo, i, blo, j)] else []) @ queue"
    have ih: "2 * block_sum (matching_loop a b b2j ?q (mbs @ [(i, j, k)]))
               \<le> 2 * block_sum (mbs @ [(i, j, k)]) + window_sum ?q"
      using "2.IH"(1)[of i "(j, k)" j k] f False by simp
    have w: "window_sum ?q + 2 * k \<le> (ahi - alo) + (bhi - blo) + window_sum queue"
      using b by (auto simp: window_sum_def)
    have "matching_loop a b b2j ((alo, ahi, blo, bhi) # queue) mbs
          = matching_loop a b b2j ?q (mbs @ [(i, j, k)])"
      using f False by simp
    then show ?thesis using ih w by (simp add: block_sum_def window_sum_def)
  qed
qed

lemma collapse_sum:
  "block_sum (collapse xs (i1, j1, k1) acc) = block_sum acc + k1 + block_sum xs"
proof (induction xs arbitrary: i1 j1 k1 acc)
  case Nil
  show ?case by (simp add: block_sum_def)
next
  case (Cons x xs)
  obtain i2 j2 k2 where x: "x = (i2, j2, k2)" by (cases x)
  show ?case using Cons[of i1 j1 "k1 + k2" acc]
      Cons[of i2 j2 k2 "if k1 \<noteq> 0 then acc @ [(i1, j1, k1)] else acc"]
    by (simp add: x block_sum_def)
qed

lemma block_sum_sort: "block_sum (sort xs) = block_sum xs"
proof -
  have "sum_list (map (\<lambda>(i, j, k). k) (sort xs)) = sum_mset (image_mset (\<lambda>(i, j, k). k) (mset (sort xs)))"
    by (metis mset_map sum_mset_sum_list)
  also have "\<dots> = sum_mset (image_mset (\<lambda>(i, j, k). k) (mset xs))" by simp
  also have "\<dots> = sum_list (map (\<lambda>(i, j, k). k) xs)"
    by (metis mset_map sum_mset_sum_list)
  finally show ?thesis by (simp add: block_sum_def)
qed

lemma matches_bound:
  "2 * block_sum (get_matching_blocks a b) \<le> length a + length b"
proof -
  have "block_sum (get_matching_blocks a b)
        = block_sum (matching_loop a b (chain_b b) [(0, length a, 0, length b)] [])"
    by (simp add: get_matching_blocks_def Let_def block_sum_append collapse_sum block_sum_sort)
       (simp add: block_sum_def)
  moreover have "2 * block_sum (matching_loop a b (chain_b b) [(0, length a, 0, length b)] [])
        \<le> 2 * block_sum [] + window_sum [(0, length a, 0, length b)]"
    by (rule matching_loop_sum)
  ultimately show ?thesis by (simp add: block_sum_def window_sum_def)
qed

lemma ratio_range: "0 \<le> ratio a b \<and> ratio a b \<le> 1"
proof -
  let ?M = "block_sum (get_matching_blocks a b)"
  let ?T = "length a + length b"
  have r: "ratio a b = calculate_ratio ?M ?T" by (simp add: ratio_def block_sum_def)
  show ?thesis
  proof (cases "?T = 0")
    case True
    then show ?thesis unfolding r by (simp add: calculate_ratio_def)
  next
    case False
    have d: "x \<le> y \<Longrightarrow> 0 < y \<Longrightarrow> x / y \<le> 1" for x y :: rat by simp
    have "(2 * of_nat ?M :: rat) = of_nat (2 * ?M)" by simp
    also have "\<dots> \<le> of_nat ?T" using matches_bound[of a b] by (simp only: of_nat_le_iff)
    finally have le: "(2 * of_nat ?M :: rat) \<le> of_nat ?T" .
    have "0 < ?T" using False by simp
    then have pos: "(0::rat) < of_nat ?T" by (simp only: of_nat_0_less_iff)
    have u: "(2 * of_nat ?M :: rat) / of_nat ?T \<le> 1" using le pos by (rule d)
    have l: "(0::rat) \<le> 2 * of_nat ?M / of_nat ?T" by simp
    have c: "calculate_ratio ?M ?T = 2 * of_nat ?M / of_nat ?T"
      unfolding calculate_ratio_def using False by (rule if_P)
    show ?thesis unfolding r c by (intro conjI l u)
  qed
qed

subsection \<open>The scorer on two equal strings\<close>

text \<open>\<open>positions i c b\<close>: the ascending positions of \<open>c\<close> in \<open>b\<close>, counted from
  \<open>i\<close>; this is what \<open>chain_b_index\<close> appends for \<open>c\<close>.\<close>

fun positions :: "nat \<Rightarrow> char \<Rightarrow> string \<Rightarrow> nat list" where
  "positions i c [] = []"
| "positions i c (x # xs) =
     (if x = c then i # positions (Suc i) c xs else positions (Suc i) c xs)"

lemma chain_b_index_positions:
  "chain_b_index i b b2j c =
     (if positions i c b = [] then b2j c
      else Some ((case b2j c of None \<Rightarrow> [] | Some l \<Rightarrow> l) @ positions i c b))"
  by (induction b arbitrary: i b2j) (auto split: option.splits)

lemma positions_mem:
  "j \<in> set (positions i c b) \<longleftrightarrow> i \<le> j \<and> j - i < length b \<and> b ! (j - i) = c"
proof (induction b arbitrary: i)
  case Nil
  show ?case by simp
next
  case (Cons x xs)
  show ?case
  proof (cases "j = i")
    case True
    then show ?thesis using Cons[of "Suc i"] by auto
  next
    case False
    show ?thesis
    proof (cases "i < j")
      case True
      then have d: "j - i = Suc (j - Suc i)" by simp
      show ?thesis using Cons[of "Suc i"] True False unfolding d by auto
    next
      case False
      with \<open>j \<noteq> i\<close> show ?thesis using Cons[of "Suc i"] by auto
    qed
  qed
qed

lemma positions_sorted: "sorted_wrt (<) (positions i c b)"
  by (induction b arbitrary: i) (auto simp: positions_mem)

text \<open>\<open>run b2j s i\<close>: the number of consecutive characters of \<open>s\<close> ending at position
  \<open>i\<close> that have an entry in \<open>b2j\<close> (a popular character has none).  When a string is
  matched against itself, this is the entry of \<open>j2len\<close> on the diagonal, and it bounds
  every entry of its row and of its column.\<close>

fun run :: "(char \<rightharpoonup> nat list) \<Rightarrow> string \<Rightarrow> nat \<Rightarrow> nat" where
  "run b2j s 0 = (if b2j (s ! 0) = None then 0 else 1)"
| "run b2j s (Suc i) = (if b2j (s ! Suc i) = None then 0 else Suc (run b2j s i))"

text \<open>\<open>index_ok\<close>: every list of \<open>b2j\<close> is ascending and holds exactly positions of
  its character, the position asked for among them.  \<open>prev_ok\<close>: the row of \<open>j2len\<close>
  left by the row before \<open>i\<close>.  \<open>diag_ok\<close>: the state of the inner loop in row \<open>i\<close>,
  with \<open>js\<close> the positions still to visit: the best match lies on the diagonal.\<close>

definition index_ok :: "(char \<rightharpoonup> nat list) \<Rightarrow> string \<Rightarrow> bool" where
  "index_ok b2j s =
     (\<forall>i<length s. \<forall>js. b2j (s ! i) = Some js \<longrightarrow>
        sorted_wrt (<) js \<and> i \<in> set js \<and> (\<forall>j\<in>set js. j < length s \<and> s ! i = s ! j))"

lemma chain_b_index_ok: "index_ok (chain_b s) s"
proof -
  have "chain_b s c = Some js \<Longrightarrow> js = positions 0 c s" for c js
    by (auto simp: chain_b_def Let_def chain_b_index_positions split: if_splits option.splits)
  then have p: "chain_b s c = Some js \<Longrightarrow> js = positions 0 c s" for c js .
  show ?thesis
    unfolding index_ok_def
  proof (intro allI impI)
    fix i js assume i: "i < length s" and c: "chain_b s (s ! i) = Some js"
    from p[OF c] have js: "js = positions 0 (s ! i) s" .
    show "sorted_wrt (<) js \<and> i \<in> set js \<and> (\<forall>j\<in>set js. j < length s \<and> s ! i = s ! j)"
      unfolding js using i by (auto simp: positions_sorted positions_mem)
  qed
qed

definition prev_ok :: "(char \<rightharpoonup> nat list) \<Rightarrow> string \<Rightarrow> nat \<Rightarrow> (nat \<rightharpoonup> nat) \<Rightarrow> bool" where
  "prev_ok b2j s i j2len =
     ((\<forall>j v. j2len j = Some v \<longrightarrow> 0 < i \<and> v \<le> run b2j s j \<and> v \<le> run b2j s (i - 1))
      \<and> (0 < i \<longrightarrow> (case j2len (i - 1) of None \<Rightarrow> 0 | Some v \<Rightarrow> v) = run b2j s (i - 1)))"

definition diag_ok :: "(char \<rightharpoonup> nat list) \<Rightarrow> string \<Rightarrow> nat \<Rightarrow> nat list \<Rightarrow> lm_state \<Rightarrow> bool" where
  "diag_ok b2j s i js st =
     (case st of (newj2len, bi, bj, bs) \<Rightarrow>
        bi = bj \<and> (\<forall>i'<i. run b2j s i' \<le> bs)
        \<and> (\<forall>j v. newj2len j = Some v \<longrightarrow> v \<le> run b2j s j \<and> v \<le> run b2j s i)
        \<and> (i \<in> set js \<or> (run b2j s i \<le> bs \<and> newj2len i = Some (run b2j s i))))"

lemma run_step:
  "b2j (s ! j) \<noteq> None \<Longrightarrow> run b2j s j = (if j = 0 then 1 else Suc (run b2j s (j - 1)))"
  by (cases j) auto

lemma run_None: "b2j (s ! j) = None \<Longrightarrow> run b2j s j = 0"
  by (cases j) auto

lemma cell_value:
  assumes "prev_ok b2j s i j2len" "b2j (s ! i) \<noteq> None" "s ! j = s ! i"
  shows "j2lenget j2len j + 1 \<le> run b2j s j \<and> j2lenget j2len j + 1 \<le> run b2j s i
         \<and> (j = i \<longrightarrow> j2lenget j2len j + 1 = run b2j s i)"
proof -
  have nj: "b2j (s ! j) \<noteq> None" using assms(2,3) by simp
  note rj = run_step[of b2j s j, OF nj] and ri = run_step[of b2j s i, OF assms(2)]
  show ?thesis
  proof (cases j)
    case 0
    then show ?thesis using rj ri by (auto simp: j2lenget_def)
  next
    case (Suc j')
    show ?thesis
    proof (cases "j2len j'")
      case None
      have g: "j2lenget j2len j = 0" using Suc None by (simp add: j2lenget_def)
      have "j = i \<longrightarrow> run b2j s i = 1"
      proof
        assume e: "j = i"
        then have "0 < i" using Suc by simp
        with assms(1) have "(case j2len (i - 1) of None \<Rightarrow> 0 | Some v \<Rightarrow> v) = run b2j s (i - 1)"
          by (simp add: prev_ok_def)
        moreover have "i - 1 = j'" using e Suc by simp
        ultimately have "run b2j s (i - 1) = 0" using None by simp
        then show "run b2j s i = 1" using ri e Suc by simp
      qed
      then show ?thesis using g rj ri Suc by auto
    next
      case (Some v)
      have g: "j2lenget j2len j = v" using Suc Some by (simp add: j2lenget_def)
      from assms(1) Some have v: "0 < i" "v \<le> run b2j s j'" "v \<le> run b2j s (i - 1)"
        by (auto simp: prev_ok_def)
      have "j = i \<longrightarrow> v = run b2j s (i - 1)"
      proof
        assume e: "j = i"
        from assms(1) v(1) have "(case j2len (i - 1) of None \<Rightarrow> 0 | Some v \<Rightarrow> v) = run b2j s (i - 1)"
          by (simp add: prev_ok_def)
        moreover have "i - 1 = j'" using e Suc by simp
        ultimately show "v = run b2j s (i - 1)" using Some by simp
      qed
      then show ?thesis using g rj ri Suc v by auto
    qed
  qed
qed



lemma inner_loop_diag:
  assumes "prev_ok b2j s i j2len" "b2j (s ! i) \<noteq> None"
  shows "sorted_wrt (<) js \<Longrightarrow> \<forall>j\<in>set js. j < n \<and> s ! i = s ! j \<Longrightarrow> diag_ok b2j s i js st \<Longrightarrow>
         diag_ok b2j s i [] (inner_loop i 0 n j2len js st)"
proof (induction js arbitrary: st)
  case Nil
  then show ?case by simp
next
  case (Cons j js)
  obtain nj bi bj bs where st: "st = (nj, bi, bj, bs)" by (cases st)
  let ?k = "j2lenget j2len j + 1"
  have "j \<in> set (j # js)" by simp
  with Cons.prems(2) have "j < n \<and> s ! i = s ! j" by (rule bspec)
  then have jn: "j < n" and sj: "s ! j = s ! i" by simp_all
  have tl: "\<forall>x\<in>set js. x < n \<and> s ! i = s ! x"
  proof
    fix x assume "x \<in> set js"
    then have "x \<in> set (j # js)" by simp
    with Cons.prems(2) show "x < n \<and> s ! i = s ! x" by (rule bspec)
  qed
  from cell_value[OF assms sj]
  have k: "?k \<le> run b2j s j" "?k \<le> run b2j s i" "j = i \<longrightarrow> ?k = run b2j s i" by simp_all
  from Cons.prems(3) have d: "bi = bj" "\<forall>i'<i. run b2j s i' \<le> bs"
    "\<forall>j v. nj j = Some v \<longrightarrow> v \<le> run b2j s j \<and> v \<le> run b2j s i"
    "i \<in> set (j # js) \<or> (run b2j s i \<le> bs \<and> nj i = Some (run b2j s i))"
    by (simp_all add: diag_ok_def st)
  from Cons.prems(1) have gt: "\<forall>x\<in>set js. j < x" and srt: "sorted_wrt (<) js" by simp_all
  have u: "bs < ?k \<longrightarrow> j = i"
  proof
    assume lt: "bs < ?k"
    show "j = i"
    proof (rule ccontr)
      assume ne: "j \<noteq> i"
      show False
      proof (cases "j < i")
        case True
        with d(2) have "run b2j s j \<le> bs" by simp
        with k(1) lt show False by simp
      next
        case False
        with ne have "i < j" by simp
        with gt have "i \<notin> set (j # js)" by auto
        with d(4) have "run b2j s i \<le> bs" by simp
        with k(2) lt show False by simp
      qed
    qed
  qed
  let ?st' = "if bs < ?k then (nj(j \<mapsto> ?k), Suc i - ?k, Suc j - ?k, ?k)
              else (nj(j \<mapsto> ?k), bi, bj, bs)"
  have step: "inner_loop i 0 n j2len (j # js) st = inner_loop i 0 n j2len js ?st'"
    using jn by (simp add: st Let_def)
  have last: "i \<in> set js \<or> (run b2j s i \<le> (if bs < ?k then ?k else bs)
                \<and> (nj(j \<mapsto> ?k)) i = Some (run b2j s i))"
  proof (cases "j = i")
    case True
    with k(3) show ?thesis by auto
  next
    case False
    with d(4) show ?thesis by auto
  qed
  have "diag_ok b2j s i js ?st'"
  proof (cases "bs < ?k")
    case True
    with u have "j = i" by simp
    with True d k last show ?thesis by (auto simp: diag_ok_def)
  next
    case False
    with d k last show ?thesis by (auto simp: diag_ok_def)
  qed
  from Cons.IH[OF srt tl this] show ?case unfolding step .
qed




lemma outer_loop_diag:
  assumes "index_ok b2j s" "n = length s"
  shows "prev_ok b2j s i0 j2len \<Longrightarrow> \<forall>i'<i0. run b2j s i' \<le> bs \<Longrightarrow>
         outer_loop s b2j 0 n [i0..<n] (j2len, bi, bi, bs) = (r, m) \<Longrightarrow>
         fst m = fst (snd m)"
proof (induction "n - i0" arbitrary: i0 j2len bi bs)
  case 0
  then have "[i0..<n] = []" by simp
  with "0.prems"(3) have "m = (bi, bi, bs)" by simp
  then show ?case by simp
next
  case (Suc d)
  then have lt: "i0 < n" by simp
  then have upt: "[i0..<n] = i0 # [Suc i0..<n]" by (simp add: upt_conv_Cons)
  let ?js = "case b2j (s ! i0) of None \<Rightarrow> [] | Some js \<Rightarrow> js"
  obtain r1 b1 b1' bs1 where inner:
    "inner_loop i0 0 n j2len ?js (Map.empty, bi, bi, bs) = (r1, b1, b1', bs1)"
    by (cases "inner_loop i0 0 n j2len ?js (Map.empty, bi, bi, bs)") auto
  have rest: "outer_loop s b2j 0 n [Suc i0..<n] (r1, b1, b1', bs1) = (r, m)"
    using Suc.prems(3) upt inner by simp
  have dd: "d = n - Suc i0" using Suc.hyps(2) by simp
  have inv: "b1 = b1' \<and> prev_ok b2j s (Suc i0) r1 \<and> (\<forall>i'<Suc i0. run b2j s i' \<le> bs1)"
  proof (cases "b2j (s ! i0)")
    case None
    then have e: "r1 = Map.empty" "b1 = bi" "b1' = bi" "bs1 = bs" using inner by simp_all
    have z: "run b2j s i0 = 0" using None by (rule run_None)
    have a: "\<forall>i'<Suc i0. run b2j s i' \<le> bs"
    proof (intro allI impI)
      fix i' assume "i' < Suc i0"
      then have "i' < i0 \<or> i' = i0" by auto
      then show "run b2j s i' \<le> bs" using Suc.prems(2) z by auto
    qed
    have b1: "\<forall>j v. (Map.empty :: nat \<rightharpoonup> nat) j = Some v \<longrightarrow>
                0 < Suc i0 \<and> v \<le> run b2j s j \<and> v \<le> run b2j s (Suc i0 - 1)"
      by simp
    have b2: "0 < Suc i0 \<longrightarrow>
                (case (Map.empty :: nat \<rightharpoonup> nat) (Suc i0 - 1) of None \<Rightarrow> 0 | Some v \<Rightarrow> v)
                  = run b2j s (Suc i0 - 1)"
      by (simp add: z)
    have b: "prev_ok b2j s (Suc i0) Map.empty" unfolding prev_ok_def using b1 b2 by (rule conjI)
    show ?thesis unfolding e by (intro conjI refl a b)
  next
    case (Some js)
    have il: "i0 < length s" using lt assms(2) by simp
    from assms(1)[unfolded index_ok_def, rule_format, OF il Some]
    have js: "sorted_wrt (<) js" "i0 \<in> set js" "\<forall>j\<in>set js. j < n \<and> s ! i0 = s ! j"
      unfolding assms(2) by simp_all
    have nn: "b2j (s ! i0) \<noteq> None" using Some by simp
    have d0: "diag_ok b2j s i0 js (Map.empty, bi, bi, bs)"
      using Suc.prems(2) js(2) by (simp add: diag_ok_def)
    from inner_loop_diag[OF Suc.prems(1) nn js(1) js(3) d0]
    have "diag_ok b2j s i0 [] (r1, b1, b1', bs1)" using inner Some by simp
    then have dk: "b1 = b1'" "\<forall>i'<i0. run b2j s i' \<le> bs1"
      "\<forall>j v. r1 j = Some v \<longrightarrow> v \<le> run b2j s j \<and> v \<le> run b2j s i0"
      "run b2j s i0 \<le> bs1" "r1 i0 = Some (run b2j s i0)"
      by (simp_all add: diag_ok_def)
    have a: "\<forall>i'<Suc i0. run b2j s i' \<le> bs1"
    proof (intro allI impI)
      fix i' assume "i' < Suc i0"
      then have "i' < i0 \<or> i' = i0" by auto
      then show "run b2j s i' \<le> bs1" using dk(2,4) by auto
    qed
    have b1: "\<forall>j v. r1 j = Some v \<longrightarrow>
                0 < Suc i0 \<and> v \<le> run b2j s j \<and> v \<le> run b2j s (Suc i0 - 1)"
    proof (intro allI impI)
      fix j v assume "r1 j = Some v"
      with dk(3) have "v \<le> run b2j s j \<and> v \<le> run b2j s i0" by blast
      then show "0 < Suc i0 \<and> v \<le> run b2j s j \<and> v \<le> run b2j s (Suc i0 - 1)" by simp
    qed
    have b2: "0 < Suc i0 \<longrightarrow>
                (case r1 (Suc i0 - 1) of None \<Rightarrow> 0 | Some v \<Rightarrow> v) = run b2j s (Suc i0 - 1)"
      by (simp add: dk(5))
    have b: "prev_ok b2j s (Suc i0) r1" unfolding prev_ok_def using b1 b2 by (rule conjI)
    show ?thesis using dk(1) a b by simp
  qed
  then have e: "b1' = b1" by simp
  from Suc.hyps(1)[OF dd, of r1 bs1 b1] inv rest show ?case unfolding e by simp
qed




lemma extend_left_diag: "extend_left s s 0 0 (bi, bi, bs) = (0, 0, bs + bi)"
proof (induction bi arbitrary: bs)
  case 0
  show ?case by simp
next
  case (Suc bi)
  have "extend_left s s 0 0 (Suc bi, Suc bi, bs) = extend_left s s 0 0 (bi, bi, bs + 1)"
    by (subst extend_left.simps) simp
  then show ?case using Suc[of "bs + 1"] by simp
qed

lemma extend_right_diag: "k \<le> n \<Longrightarrow> extend_right s s n n (0, 0, k) = (0, 0, n)"
proof (induction "n - k" arbitrary: k)
  case 0
  then show ?case by simp
next
  case (Suc d)
  then have lt: "k < n" by simp
  have "extend_right s s n n (0, 0, k) = extend_right s s n n (0, 0, k + 1)"
    using lt by (subst extend_right.simps) simp
  moreover have "extend_right s s n n (0, 0, k + 1) = (0, 0, n)"
    using Suc.hyps(1)[of "k + 1"] Suc.hyps(2) lt by simp
  ultimately show ?case by simp
qed

lemma find_longest_match_self:
  "find_longest_match s s (chain_b s) 0 (length s) 0 (length s) = (0, 0, length s)"
proof -
  let ?n = "length s"
  obtain r bi bj bs where o:
    "outer_loop s (chain_b s) 0 ?n [0..<?n] (Map.empty, 0, 0, 0) = (r, bi, bj, bs)"
    by (cases "outer_loop s (chain_b s) 0 ?n [0..<?n] (Map.empty, 0, 0, 0)") auto
  have p0: "prev_ok (chain_b s) s 0 Map.empty" by (simp add: prev_ok_def)
  have "fst (bi, bj, bs) = fst (snd (bi, bj, bs))"
    by (rule outer_loop_diag[OF chain_b_index_ok refl p0 _ o]) simp
  then have e: "bj = bi" by simp
  have "best_ok 0 ?n 0 ?n (bi, bj, bs)"
    by (rule outer_loop_ok[OF _ _ _ o]) (simp_all add: row_ok_def best_ok_def)
  then have le: "bs + bi \<le> ?n" by (auto simp: best_ok_def e)
  show ?thesis
    unfolding find_longest_match_def o e
    by (simp add: extend_left_diag extend_right_diag[OF le] del: extend_left.simps extend_right.simps)
qed

lemma ratio_self: "ratio s s = 1"
proof (cases "s = []")
  case True
  then show ?thesis by (simp add: ratio_empty_empty)
next
  case False
  then have n: "0 < length s" by simp
  have m: "matching_loop s s (chain_b s) [(0, length s, 0, length s)] [] = [(0, 0, length s)]"
    using n by (simp add: find_longest_match_self)
  have g: "get_matching_blocks s s = [(0, 0, length s), (length s, length s, 0)]"
    using n by (simp only: get_matching_blocks_def Let_def m) simp
  show ?thesis using n by (simp add: ratio_def g calculate_ratio_def)
qed

section \<open>The resolver's decision chain\<close>




text \<open>
  The fuzzy fallback.  For every query that \<open>isdigit\<close> rejects and that no lower-cased
  name of the mapping equals after lower-casing, \<open>_get_code\<close> raises nothing and its
  result is read off \<open>FuzzySearch.search\<close> run on the lower-cased query with threshold
  0.6 for the item kind \<open>country\<close> and 0.5 for every other kind (partial-match score 0.9,
  at most 5 results): \<open>None\<close> when the search returns no candidate, and the code of its
  first candidate otherwise.
\<close>

lemma fuzzy_fallback:
  assumes "\<not> isdigit q" "\<forall>e\<in>set m. lower (snd e) \<noteq> lower q"
  shows "get_code q m kind =
         Inr (case search (lower q) m (if kind = ''country'' then 6 / 10 else 5 / 10) (9 / 10) 5 of
                [] \<Rightarrow> None
              | (code, name, similarity) # rest \<Rightarrow> Some code)"
proof -
  have "exact_loop (lower q) m = None" using assms(2) by (simp add: exact_loop_None)
  then show ?thesis using assms(1)
    by (simp add: get_code_def find_best_match_def split: list.splits)
qed


lemma fuzzy_fallback_witness:
  "\<not> isdigit ''austra''
   \<and> list_all (\<lambda>e. lower (snd e) \<noteq> lower ''austra'') [(36::int, ''Australia''), (40, ''Austria'')]
   \<and> search (lower ''austra'') [(36, ''Australia''), (40, ''Austria'')] (5 / 10) (9 / 10) 5
       = [(40, ''Austria'', 12 / 13), (36, ''Australia'', 4 / 5)]
   \<and> get_code ''austra'' [(36, ''Australia''), (40, ''Austria'')] ''product'' = Inr (Some 40)"
proof -
  have d: "\<not> isdigit ''austra''" by code_simp
  have n: "list_all (\<lambda>e. lower (snd e) \<noteq> lower ''austra'') [(36::int, ''Australia''), (40, ''Austria'')]"
    by code_simp
  then have h: "\<forall>e\<in>set [(36::int, ''Australia''), (40, ''Austria'')]. lower (snd e) \<noteq> lower ''austra''"
    unfolding list_all_iff .
  have s: "search (lower ''austra'') [(36, ''Australia''), (40, ''Austria'')] (5 / 10) (9 / 10) 5
       = [(40, ''Austria'', 12 / 13), (36, ''Australia'', 4 / 5)]"
    by code_simp
  have c: "(''product'' = ''country'') = False" by simp
  have "get_code ''austra'' [(36, ''Australia''), (40, ''Austria'')] ''product'' = Inr (Some 40)"
    unfolding fuzzy_fallback[OF d h, of "''product''"] c if_False s by simp
  with d n s show ?thesis by simp
qed

text \<open>
  The guard of the numeric short-circuit is \<open>isdigit\<close>, which also accepts the
  superscript digits, while \<open>int\<close> parses decimal digits only: a query that \<open>isdigit\<close>
  accepts and that has a character other than 0..9 makes \<open>_get_code\<close> raise
  \<open>ValueError\<close>, whatever the mapping and the item kind.
\<close>

lemma isdigit_not_decimal_raises:
  assumes "isdigit q" "\<not> list_all isdecimal_char q"
  shows "get_code q m kind = Inl ValueError"
  using assms by (simp add: get_code_def py_int_def)

text \<open>
  Claim C3: a query that is not all decimal digits and has no exact match goes to the
  fuzzy matcher, and resolution never raises.  The code does not do this for the query
  \<open>79\<^sup>2\<close> (the digits 7 and 9 followed by the superscript two, U+00B2): it is not made
  of decimal digits only and equals no lower-cased name of the mapping
  \<open>{1: "Turkey"}\<close>, yet \<open>isdigit\<close> accepts it, the fuzzy matcher is not asked and
  \<open>_get_code\<close> raises \<open>ValueError\<close>.
\<close>

theorem get_code_superscript_raises:
  "\<not> list_all isdecimal_char [CHR ''7'', CHR ''9'', CHR 0xB2]
   \<and> isdigit [CHR ''7'', CHR ''9'', CHR 0xB2]
   \<and> list_all (\<lambda>e. lower (snd e) \<noteq> lower [CHR ''7'', CHR ''9'', CHR 0xB2]) [(1::int, ''Turkey'')]
   \<and> get_code [CHR ''7'', CHR ''9'', CHR 0xB2] [(1, ''Turkey'')] ''country'' = Inl ValueError"
  by (simp add: get_code_def py_int_def isdigit_def isdigit_char_def isdecimal_char_def
        lower_def lower_char_def)

text \<open>
  Claim C1, as stated: every code that resolution returns is a key of the mapping, also
  for a query made of digits.  It fails: for the query \<open>7\<close> and the mapping
  \<open>{1: "Turkey"}\<close>, \<open>_get_code\<close> returns 7, which is no key.
\<close>

theorem get_code_key_counterexample:
  "get_code ''7'' [(1, ''Turkey'')] ''country'' = Inr (Some 7) \<and> 7 \<notin> fst ` set [(1::int, ''Turkey'')]"
  by (simp add: get_code_def isdigit_def isdigit_char_def py_int_def int_max_str_digits_def
        isdecimal_char_def digit_value_def)

text \<open>
  Claim C1, amended.  For every query that \<open>isdigit\<close> rejects, a code returned by
  \<open>_get_code\<close> is a key of the mapping; and for every query, digits or not, a code
  returned by \<open>find_best_match\<close> is a key of the mapping.
\<close>

theorem resolved_code_in_mapping:
  "(\<not> isdigit q \<and> get_code q m kind = Inr (Some c) \<longrightarrow> c \<in> fst ` set m) \<and>
   (fst (find_best_match q m kind ex) = Some c \<longrightarrow> c \<in> fst ` set m)"
proof (intro conjI impI)
  assume a: "fst (find_best_match q m kind ex) = Some c"
  then obtain n where "exact_loop (lower q) m = Some (c, n)"
    by (auto simp: find_best_match_def Let_def split: option.splits if_splits)
  from exact_loop_Some[OF this] show "c \<in> fst ` set m" by force
next
  assume a: "\<not> isdigit q \<and> get_code q m kind = Inr (Some c)"
  then have nd: "\<not> isdigit q" and g: "get_code q m kind = Inr (Some c)" by simp_all
  show "c \<in> fst ` set m"
  proof (cases "exact_loop (lower q) m")
    case (Some e)
    obtain c' n' where e: "e = (c', n')" by (cases e)
    have "find_best_match q m kind True = (Some c', Some n', [])"
      using Some e by (simp add: find_best_match_def)
    with g nd have "c' = c" by (simp add: get_code_def)
    with exact_loop_Some[of "lower q" m c' n'] Some e show ?thesis by force
  next
    case None
    let ?r = "search (lower q) m (if kind = ''country'' then 6 / 10 else 5 / 10) (9 / 10) 5"
    have f: "find_best_match q m kind True = (None, None, ?r)"
      using None by (simp add: find_best_match_def)
    from g nd obtain n s rest where "?r = (c, n, s) # rest"
      unfolding get_code_def f by (cases ?r) auto
    then have "(c, n, s) \<in> set ?r" by simp
    from search_keys[OF this] show ?thesis by force
  qed
qed

theorem resolved_code_in_mapping_witness:
  "\<not> isdigit ''turkey'' \<and> get_code ''turkey'' [(10, ''Turkey''), (11, ''Turkmenistan'')] ''country'' = Inr (Some 10)
   \<and> fst (find_best_match ''turkey'' [(10, ''Turkey''), (11, ''Turkmenistan'')] ''country'' True) = Some 10
   \<and> (10::int) \<in> fst ` set [(10, ''Turkey''), (11, ''Turkmenistan'')]"
proof -
  have d: "\<not> isdigit ''turkey''" by code_simp
  have f: "fst (find_best_match ''turkey'' [(10, ''Turkey''), (11, ''Turkmenistan'')] ''country'' True)
           = Some 10"
    by code_simp
  have g: "get_code ''turkey'' [(10, ''Turkey''), (11, ''Turkmenistan'')] ''country'' = Inr (Some 10)"
    by code_simp
  from resolved_code_in_mapping[of "''turkey''" "[(10, ''Turkey''), (11, ''Turkmenistan'')]" "''country''" 10 True]
    d f g show ?thesis by blast
qed


text \<open>
  Claim C5.  When the mapping has an entry whose lower-cased name is the lower-cased
  query, \<open>find_best_match\<close> (with the exact search on) returns the code and the name of
  the first such entry in the mapping's order, with the empty candidate list: the literal
  \<open>[]\<close> of the early return, not the result of a search.  For a query that \<open>isdigit\<close>
  rejects, \<open>_get_code\<close> returns that code.  When only one entry has that lower-cased
  name, it is the entry returned.
\<close>

theorem exact_match:
  assumes "(c, n) \<in> set m" "lower n = lower q"
  shows "\<exists>c' n'. find (\<lambda>e. lower (snd e) = lower q) m = Some (c', n')
           \<and> find_best_match q m kind True = (Some c', Some n', [])
           \<and> (\<not> isdigit q \<longrightarrow> get_code q m kind = Inr (Some c'))
           \<and> ((\<forall>e\<in>set m. lower (snd e) = lower q \<longrightarrow> e = (c, n)) \<longrightarrow> (c', n') = (c, n))"
proof -
  from assms have "\<not> (\<forall>e\<in>set m. lower (snd e) \<noteq> lower q)" by force
  then obtain c' n' where e: "exact_loop (lower q) m = Some (c', n')"
    using exact_loop_None[of "lower q" m] by (cases "exact_loop (lower q) m") auto
  have f: "find_best_match q m kind True = (Some c', Some n', [])"
    using e by (simp add: find_best_match_def)
  have g: "\<not> isdigit q \<longrightarrow> get_code q m kind = Inr (Some c')"
    by (simp add: get_code_def f)
  have i: "(c', n') \<in> set m \<and> lower n' = lower q" using exact_loop_Some[OF e] .
  have u: "(\<forall>e\<in>set m. lower (snd e) = lower q \<longrightarrow> e = (c, n)) \<longrightarrow> (c', n') = (c, n)"
  proof
    assume "\<forall>e\<in>set m. lower (snd e) = lower q \<longrightarrow> e = (c, n)"
    with i show "(c', n') = (c, n)" by force
  qed
  have "find (\<lambda>e. lower (snd e) = lower q) m = Some (c', n')"
    using e by (simp add: exact_loop_find)
  with f g u show ?thesis by blast
qed

theorem exact_match_witness:
  "(10, ''Turkey'') \<in> set [(10::int, ''Turkey''), (11, ''Turkmenistan'')]
   \<and> lower ''Turkey'' = lower ''turkey''
   \<and> find_best_match ''turkey'' [(10, ''Turkey''), (11, ''Turkmenistan'')] ''country'' True
       = (Some 10, Some ''Turkey'', [])
   \<and> search (lower ''turkey'') [(10, ''Turkey''), (11, ''Turkmenistan'')] (6 / 10) (9 / 10) 5
       = [(10, ''Turkey'', 1)]"
proof -
  let ?m = "[(10::int, ''Turkey''), (11, ''Turkmenistan'')]"
  have a: "(10, ''Turkey'') \<in> set ?m" by simp
  have b: "lower ''Turkey'' = lower ''turkey''" by code_simp
  have fd: "find (\<lambda>e. lower (snd e) = lower ''turkey'') ?m = Some (10, ''Turkey'')" by code_simp
  have s: "search (lower ''turkey'') ?m (6 / 10) (9 / 10) 5
       = [(10, ''Turkey'', 1)]" by code_simp
  from exact_match[OF a b, of "''country''"] obtain c' n' where
    "find (\<lambda>e. lower (snd e) = lower ''turkey'') ?m = Some (c', n')"
    "find_best_match ''turkey'' ?m ''country'' True = (Some c', Some n', [])"
    by blast
  with fd have "find_best_match ''turkey'' ?m ''country'' True = (Some 10, Some ''Turkey'', [])"
    by simp
  with a b s show ?thesis by simp
qed

section \<open>The fuzzy matcher's results\<close>

text \<open>
  Claim C2.  \<open>search\<close> is the slice of the sorted list of emitted candidates, and the
  emitted list is, entry by entry in the mapping's order: the entry with its computed
  similarity when the similarity of the lower-cased query against the lower-cased name
  reaches the threshold; otherwise the entry with the fixed \<open>partial_match_score\<close> when
  the lower-cased query is a contiguous substring of the lower-cased name, whatever the
  computed similarity was; otherwise nothing.  The two emissions exclude each other, the
  threshold test coming first.
\<close>

theorem search_emission:
  "search q m thr p k = slice_to (sorted_reverse (search_loop (lower q) m thr p [])) k
   \<and> search_loop (lower q) m thr p [] =
       concat (map (\<lambda>(code, name).
         if thr \<le> ratio (lower q) (lower name) then [(code, name, ratio (lower q) (lower name))]
         else if sublist (lower q) (lower name) then [(code, name, p)]
         else []) m)
   \<and> (\<forall>c n s. (c, n, s) \<in> set (search_loop (lower q) m thr p []) \<longleftrightarrow>
         (c, n) \<in> set m \<and>
         (thr \<le> ratio (lower q) (lower n) \<and> s = ratio (lower q) (lower n)
          \<or> ratio (lower q) (lower n) < thr \<and> sublist (lower q) (lower n) \<and> s = p))"
proof (intro conjI allI)
  show "search q m thr p k = slice_to (sorted_reverse (search_loop (lower q) m thr p [])) k"
    by (simp add: search_def)
  show "search_loop (lower q) m thr p [] =
       concat (map (\<lambda>(code, name).
         if thr \<le> ratio (lower q) (lower name) then [(code, name, ratio (lower q) (lower name))]
         else if sublist (lower q) (lower name) then [(code, name, p)]
         else []) m)"
    by (simp add: search_loop_acc)
  fix c n s
  show "(c, n, s) \<in> set (search_loop (lower q) m thr p []) \<longleftrightarrow>
         (c, n) \<in> set m \<and>
         (thr \<le> ratio (lower q) (lower n) \<and> s = ratio (lower q) (lower n)
          \<or> ratio (lower q) (lower n) < thr \<and> sublist (lower q) (lower n) \<and> s = p)"
    by (rule search_loop_mem)
qed

theorem search_emission_witness:
  "search_loop (lower ''TUR'') [(10, ''Turkey''), (11, ''Turkmenistan''), (12, ''Peru'')] (6 / 10) (9 / 10) []
     = [(10, ''Turkey'', 2 / 3), (11, ''Turkmenistan'', 9 / 10)]
   \<and> ratio (lower ''TUR'') (lower ''Turkmenistan'') = 2 / 5
   \<and> ratio (lower ''TUR'') (lower ''Peru'') = 2 / 7
   \<and> search ''TUR'' [(10, ''Turkey''), (11, ''Turkmenistan''), (12, ''Peru'')] (6 / 10) (9 / 10) 5
     = [(11, ''Turkmenistan'', 9 / 10), (10, ''Turkey'', 2 / 3)]"
proof -
  let ?m = "[(10::int, ''Turkey''), (11, ''Turkmenistan''), (12, ''Peru'')]"
  have c: "concat (map (\<lambda>(code, name).
         if 6 / 10 \<le> ratio (lower ''TUR'') (lower name)
         then [(code, name, ratio (lower ''TUR'') (lower name))]
         else if sublist (lower ''TUR'') (lower name) then [(code, name, 9 / 10)]
         else []) ?m) = [(10, ''Turkey'', 2 / 3), (11, ''Turkmenistan'', 9 / 10)]"
    by code_simp
  have e: "search_loop (lower ''TUR'') ?m (6 / 10) (9 / 10) []
            = [(10, ''Turkey'', 2 / 3), (11, ''Turkmenistan'', 9 / 10)]"
    using search_emission[of "''TUR''" ?m "6 / 10" "9 / 10" 5] c by simp
  have s: "slice_to (sorted_reverse [(10::int, ''Turkey'', 2 / 3), (11, ''Turkmenistan'', 9 / 10)]) 5
            = [(11, ''Turkmenistan'', 9 / 10), (10, ''Turkey'', 2 / 3)]"
    by code_simp
  have r: "ratio (lower ''TUR'') (lower ''Turkmenistan'') = 2 / 5"
    "ratio (lower ''TUR'') (lower ''Peru'') = 2 / 7"
    by code_simp+
  have "search ''TUR'' ?m (6 / 10) (9 / 10) 5
     = [(11, ''Turkmenistan'', 9 / 10), (10, ''Turkey'', 2 / 3)]"
    using search_emission[of "''TUR''" ?m "6 / 10" "9 / 10" 5] e s by simp
  with e r show ?thesis by simp
qed

text \<open>
  Claim C6.  \<open>max_results\<close> is a number of results, so it is not negative.  For every
  \<open>max_results \<ge> 0\<close>, \<open>search\<close> returns the first \<open>max_results\<close> elements of the sorted
  candidates; the sorted candidates are a permutation of the emitted ones, in descending
  order of similarity, with the emitted order kept among candidates of equal similarity;
  the result has \<open>min(number emitted, max_results)\<close> elements, so at most
  \<open>max_results\<close>, and no candidate left out has a higher similarity than a candidate
  returned.
\<close>

theorem search_ranking:
  assumes "0 \<le> k"
  shows "search q m thr p k = take (nat k) (sorted_reverse (search_loop (lower q) m thr p []))
   \<and> mset (sorted_reverse (search_loop (lower q) m thr p [])) = mset (search_loop (lower q) m thr p [])
   \<and> sorted (map (\<lambda>x. - snd (snd x)) (sorted_reverse (search_loop (lower q) m thr p [])))
   \<and> (\<forall>s. filter (\<lambda>x. snd (snd x) = s) (sorted_reverse (search_loop (lower q) m thr p []))
          = filter (\<lambda>x. snd (snd x) = s) (search_loop (lower q) m thr p []))
   \<and> length (search q m thr p k) = min (length (search_loop (lower q) m thr p [])) (nat k)
   \<and> int (length (search q m thr p k)) \<le> k
   \<and> (\<forall>x\<in>set (search q m thr p k).
        \<forall>y\<in>set (drop (nat k) (sorted_reverse (search_loop (lower q) m thr p []))).
          snd (snd y) \<le> snd (snd x))"
proof -
  let ?E = "search_loop (lower q) m thr p []"
  let ?S = "sorted_reverse ?E"
  have r: "search q m thr p k = take (nat k) ?S"
    using assms by (simp add: search_def slice_to_def)
  have l: "length (search q m thr p k) = min (length ?E) (nat k)"
    unfolding r by (simp add: sorted_reverse_def)
  have t: "\<forall>x\<in>set (search q m thr p k). \<forall>y\<in>set (drop (nat k) ?S). snd (snd y) \<le> snd (snd x)"
  proof (intro ballI)
    fix x y assume "x \<in> set (search q m thr p k)" "y \<in> set (drop (nat k) ?S)"
    then have "x \<in> set (take (nat k) ?S)" "y \<in> set (drop (nat k) ?S)" by (simp_all add: r)
    from sorted_take_drop[OF sorted_reverse_props(2) this]
    show "snd (snd y) \<le> snd (snd x)" by simp
  qed
  have b: "int (length (search q m thr p k)) \<le> k"
    unfolding l using assms by simp
  show ?thesis using r l b t sorted_reverse_props[where E = ?E] by blast
qed


theorem search_ranking_witness:
  "(0::int) \<le> 1
   \<and> search_loop (lower ''TUR'') [(10, ''Turkey''), (11, ''Turkmenistan''), (12, ''Peru'')] (6 / 10) (9 / 10) []
       = [(10, ''Turkey'', 2 / 3), (11, ''Turkmenistan'', 9 / 10)]
   \<and> search ''TUR'' [(10, ''Turkey''), (11, ''Turkmenistan''), (12, ''Peru'')] (6 / 10) (9 / 10) 1
       = [(11, ''Turkmenistan'', 9 / 10)]"
proof -
  let ?m = "[(10::int, ''Turkey''), (11, ''Turkmenistan''), (12, ''Peru'')]"
  have h: "(0::int) \<le> 1" by simp
  have e: "search_loop (lower ''TUR'') ?m (6 / 10) (9 / 10) []
            = [(10, ''Turkey'', 2 / 3), (11, ''Turkmenistan'', 9 / 10)]"
    by code_simp
  have t: "take (nat 1) (sorted_reverse [(10::int, ''Turkey'', 2 / 3), (11, ''Turkmenistan'', 9 / 10)])
            = [(11, ''Turkmenistan'', 9 / 10)]"
    by code_simp
  have "search ''TUR'' ?m (6 / 10) (9 / 10) 1
          = take (nat 1) (sorted_reverse (search_loop (lower ''TUR'') ?m (6 / 10) (9 / 10) []))"
    using search_ranking[OF h, of "''TUR''" ?m "6 / 10" "9 / 10"] by (rule conjunct1)
  then have "search ''TUR'' ?m (6 / 10) (9 / 10) 1 = [(11, ''Turkmenistan'', 9 / 10)]"
    unfolding e t .
  with h e show ?thesis by simp
qed

text \<open>
  Claim C10.  For every mapping whose names are all non-empty, every threshold in
  \<open>(0, 1]\<close>, every \<open>partial_match_score\<close> \<open>p\<close> and every number of results
  \<open>max_results \<ge> 0\<close>, the search for the empty query returns the first \<open>max_results\<close>
  entries of the mapping, in the mapping's order, each with similarity \<open>p\<close>:
  \<open>min(size of mapping, max_results)\<close> candidates.  Every entry is emitted by the
  substring branch, since the similarity of the empty string against a non-empty name is
  0, below the threshold, and the empty string is a substring of every name.
\<close>

theorem empty_query_emits_all:
  assumes "0 < thr" "thr \<le> 1" "\<forall>e\<in>set m. snd e \<noteq> []" "0 \<le> k"
  shows "search [] m thr p k = take (nat k) (map (\<lambda>e. (fst e, snd e, p)) m)
    \<and> length (search [] m thr p k) = min (length m) (nat k)
    \<and> (\<forall>x\<in>set (search [] m thr p k). snd (snd x) = p)
    \<and> (\<forall>e\<in>set m. ratio (lower []) (lower (snd e)) = 0 \<and> sublist (lower []) (lower (snd e)))"
proof -
  let ?E = "map (\<lambda>e. (fst e, snd e, p)) m"
  have E: "search_loop (lower []) m thr p [] = ?E"
    using search_loop_empty_query[OF assms(1,3), of p "[]"] by (simp add: lower_Nil)
  have "sorted_reverse ?E = ?E"
    unfolding sorted_reverse_def by (rule sort_key_all_equal[where c = "- p"]) auto
  then have s: "search [] m thr p k = take (nat k) ?E"
    using assms(4) by (simp add: search_def E slice_to_def)
  have a: "\<forall>x\<in>set (search [] m thr p k). snd (snd x) = p"
    unfolding s by (auto dest!: in_set_takeD)
  have z: "\<forall>e\<in>set m. ratio (lower []) (lower (snd e)) = 0 \<and> sublist (lower []) (lower (snd e))"
    using assms(3) by (simp add: lower_Nil lower_eq_Nil ratio_empty_left)
  show ?thesis using s a z by simp
qed

theorem empty_query_emits_all_witness:
  "(0::rat) < 1 / 2 \<and> (1::rat) / 2 \<le> 1 \<and> (0::int) \<le> 1
   \<and> list_all (\<lambda>e. snd e \<noteq> []) [(792::int, ''Turkey''), (643, ''Russian Federation'')]
   \<and> search [] [(792, ''Turkey''), (643, ''Russian Federation'')] (1 / 2) (9 / 10) 1
       = [(792, ''Turkey'', 9 / 10)]"
proof -
  let ?m = "[(792::int, ''Turkey''), (643, ''Russian Federation'')]"
  have h: "(0::rat) < 1 / 2" "(1::rat) / 2 \<le> 1" "(0::int) \<le> 1" by simp_all
  have n: "\<forall>e\<in>set ?m. snd e \<noteq> []" by simp
  have "search [] ?m (1 / 2) (9 / 10) 1 = take (nat 1) (map (\<lambda>e. (fst e, snd e, 9 / 10)) ?m)"
    using empty_query_emits_all[OF h(1,2) n h(3), of "9 / 10"] by (rule conjunct1)
  then have "search [] ?m (1 / 2) (9 / 10) 1 = [(792, ''Turkey'', 9 / 10)]" by simp
  with h show ?thesis by simp
qed

text \<open>
  Claim C7, as stated: for every \<open>partial_match_score\<close> every returned similarity lies
  in \<open>[0, 1]\<close>.  It fails: a substring hit reports \<open>partial_match_score\<close> as it was
  passed, so with \<open>partial_match_score = 1.5\<close> the query \<open>tur\<close> on the mapping
  \<open>{11: "Turkmenistan"}\<close> (computed similarity 0.4, below the threshold 0.6) returns a
  candidate of similarity 1.5.
\<close>

theorem search_score_counterexample:
  "search ''tur'' [(11, ''Turkmenistan'')] (6 / 10) (3 / 2) 5 = [(11, ''Turkmenistan'', 3 / 2)]
   \<and> ratio (lower ''tur'') (lower ''Turkmenistan'') = 2 / 5
   \<and> \<not> (3 / 2 :: rat) \<le> 1"
  by code_simp

text \<open>
  Claim C7, amended.  For every query, mapping, threshold and \<open>max_results\<close>, and every
  \<open>partial_match_score\<close> in \<open>[0, 1]\<close>, every candidate returned by \<open>search\<close> has a
  similarity in \<open>[0, 1]\<close>: it is either a computed similarity, which always lies in
  \<open>[0, 1]\<close>, or the \<open>partial_match_score\<close>.
\<close>

theorem search_similarity_range:
  assumes "0 \<le> p" "p \<le> 1"
  shows "\<forall>x\<in>set (search q m thr p k). 0 \<le> snd (snd x) \<and> snd (snd x) \<le> 1"
proof
  fix x assume x: "x \<in> set (search q m thr p k)"
  obtain c n s where e: "x = (c, n, s)" by (cases x)
  have "set (search q m thr p k) \<subseteq> set (sorted_reverse (search_loop (lower q) m thr p []))"
    unfolding search_def by (rule set_slice_to)
  with x have "x \<in> set (sorted_reverse (search_loop (lower q) m thr p []))"
    by (rule rev_subsetD)
  then have "(c, n, s) \<in> set (search_loop (lower q) m thr p [])"
    by (simp add: sorted_reverse_def e)
  then have "s = ratio (lower q) (lower n) \<or> s = p"
    unfolding search_loop_mem by blast
  then have "0 \<le> s \<and> s \<le> 1"
    using assms ratio_range[of "lower q" "lower n"] by blast
  then show "0 \<le> snd (snd x) \<and> snd (snd x) \<le> 1" by (simp add: e)
qed

theorem search_similarity_range_witness:
  "(0::rat) \<le> 9 / 10 \<and> (9 / 10 :: rat) \<le> 1
   \<and> search ''TUR'' [(10, ''Turkey''), (11, ''Turkmenistan''), (12, ''Peru'')] (6 / 10) (9 / 10) 5
       = [(11, ''Turkmenistan'', 9 / 10), (10, ''Turkey'', 2 / 3)]
   \<and> list_all (\<lambda>x. 0 \<le> snd (snd x) \<and> snd (snd x) \<le> 1)
         (search ''TUR'' [(10, ''Turkey''), (11, ''Turkmenistan''), (12, ''Peru'')] (6 / 10) (9 / 10) 5)"
proof -
  let ?m = "[(10::int, ''Turkey''), (11, ''Turkmenistan''), (12, ''Peru'')]"
  have h: "(0::rat) \<le> 9 / 10" "(9 / 10 :: rat) \<le> 1" by simp_all
  have s: "search ''TUR'' ?m (6 / 10) (9 / 10) 5
       = [(11, ''Turkmenistan'', 9 / 10), (10, ''Turkey'', 2 / 3)]"
    by code_simp
  have "\<forall>x\<in>set (search ''TUR'' ?m (6 / 10) (9 / 10) 5). 0 \<le> snd (snd x) \<and> snd (snd x) \<le> 1"
    using h by (rule search_similarity_range)
  then have "list_all (\<lambda>x. 0 \<le> snd (snd x) \<and> snd (snd x) \<le> 1) (search ''TUR'' ?m (6 / 10) (9 / 10) 5)"
    unfolding list_all_iff .
  with h s show ?thesis by (intro conjI)
qed

section \<open>The similarity scorer\<close>

text \<open>
  Claim C8, as stated: the scorer is symmetric.  It fails: \<open>SequenceMatcher\<close> looks for
  the longest block in its first argument's order, and the score of \<open>tide\<close> against
  \<open>diet\<close> is 0.25 while the score of \<open>diet\<close> against \<open>tide\<close> is 0.5.
\<close>

theorem ratio_asymmetric_counterexample:
  "ratio ''tide'' ''diet'' = 1 / 4 \<and> ratio ''diet'' ''tide'' = 1 / 2
   \<and> ratio ''tide'' ''diet'' \<noteq> ratio ''diet'' ''tide''"
  by code_simp

text \<open>
  Claim C8, amended.  The score of \<open>a\<close> against \<open>b\<close> equals the score of \<open>b\<close> against
  \<open>a\<close> whenever one of the two strings is empty.
\<close>

theorem ratio_symmetric_empty:
  assumes "a = [] \<or> b = []"
  shows "ratio a b = ratio b a"
proof (cases "a = []")
  case True
  show ?thesis
  proof (cases "b = []")
    case True
    with \<open>a = []\<close> show ?thesis by simp
  next
    case False
    with True show ?thesis by (simp add: ratio_empty_left ratio_empty_right)
  qed
next
  case False
  with assms have "b = []" by simp
  with False show ?thesis by (simp add: ratio_empty_left ratio_empty_right)
qed

theorem ratio_symmetric_empty_witness:
  "ratio [] ''turkey'' = 0 \<and> ratio ''turkey'' [] = 0"
proof -
  have z: "ratio [] ''turkey'' = 0" by code_simp
  have "([]::string) = [] \<or> ''turkey'' = []" by simp
  then have "ratio [] ''turkey'' = ratio ''turkey'' []" by (rule ratio_symmetric_empty)
  with z show ?thesis by simp
qed

text \<open>
  Claim C9.  The score of every string against itself is 1, the empty string included,
  and the score of the empty string against every non-empty string is 0.
\<close>

theorem ratio_identity_and_empty:
  "ratio s s = 1 \<and> ratio [] [] = 1 \<and> (x \<noteq> [] \<longrightarrow> ratio [] x = 0)"
proof (intro conjI impI)
  show "ratio s s = 1" by (rule ratio_self)
  show "ratio [] [] = 1" by (rule ratio_empty_empty)
  assume "x \<noteq> []"
  then show "ratio [] x = 0" by (rule ratio_empty_left)
qed

theorem ratio_identity_and_empty_witness:
  "ratio ''turkey'' ''turkey'' = 1 \<and> ''x'' \<noteq> [] \<and> ratio [] ''x'' = 0"
  using ratio_identity_and_empty[of "''turkey''" "''x''"] by simp

end
